theory Spec2Isabelle
  imports Main "HOL-Library.Word"
begin

section \<open>Memory model\<close>

text \<open>
  The container of \<^verbatim>\<open>single-linked-list.h\<close> is a chain of heap nodes hanging off a
  sentinel node \<^verbatim>\<open>head_\<close> that is a member of the list object. A \<^verbatim>\<open>Node*\<close> is
  therefore one of three things: the null pointer, the address of the sentinel of some
  list object, or the address of a node obtained from \<^verbatim>\<open>new\<close>.
  Identifiers cannot end in an underscore here, so the members \<^verbatim>\<open>value\<close>,
  \<^verbatim>\<open>head_.next_node\<close> and \<^verbatim>\<open>size_\<close> are called \<open>node_value\<close>,
  \<open>head_next_node\<close> and \<open>list_size\<close>; \<^verbatim>\<open>begin\<close> and \<^verbatim>\<open>end\<close> are
  \<open>begin_it\<close> and \<open>end_it\<close>. \<^verbatim>\<open>size_t\<close> is taken as 64 bits wide.

  Every operation returns either a fault or its result. A fault stands for behaviour the
  language leaves undefined (following a null or a freed pointer) and for a failed
  \<^verbatim>\<open>assert\<close>; the assertions are modelled as compiled in.
\<close>

type_synonym addr = nat
type_synonym obj = nat
type_synonym size_t = "64 word"

datatype ptr = nullptr | Head obj | Heap addr

record 'a Node =
  node_value :: 'a
  next_node :: ptr

text \<open>
  The sentinel's own \<^verbatim>\<open>value\<close> member is default-constructed and never read by the
  container, so a list object is its sentinel's link and the stored size.
\<close>

record 'a SingleLinkedList =
  head_next_node :: ptr
  list_size :: size_t

text \<open>
  The world: the nodes that are currently allocated, the next address \<^verbatim>\<open>new\<close> hands
  out (an address is never handed out twice, so every use of a freed node is caught), the
  list objects that are alive, and the next slot for an object with automatic storage.
\<close>

record 'a world =
  heap :: "addr \<Rightarrow> 'a Node option"
  brk :: addr
  lists :: "obj \<Rightarrow> 'a SingleLinkedList option"
  next_obj :: obj

datatype fault =
    NullDeref
  | Dangling
  | AssertionFailed
  | BadDelete
  | SentinelValue

text \<open>\<^verbatim>\<open>p->next_node\<close>\<close>

definition get_next :: "'a world \<Rightarrow> ptr \<Rightarrow> fault + ptr" where
  "get_next w p =
     (case p of
        nullptr \<Rightarrow> Inl NullDeref
      | Head l \<Rightarrow> (case lists w l of None \<Rightarrow> Inl Dangling | Some s \<Rightarrow> Inr (head_next_node s))
      | Heap a \<Rightarrow> (case heap w a of None \<Rightarrow> Inl Dangling | Some n \<Rightarrow> Inr (next_node n)))"

text \<open>\<^verbatim>\<open>p->next_node = q\<close>\<close>

definition set_next :: "ptr \<Rightarrow> ptr \<Rightarrow> 'a world \<Rightarrow> fault + 'a world" where
  "set_next p q w =
     (case p of
        nullptr \<Rightarrow> Inl NullDeref
      | Head l \<Rightarrow>
          (case lists w l of
             None \<Rightarrow> Inl Dangling
           | Some s \<Rightarrow> Inr (w\<lparr>lists := (lists w)(l \<mapsto> s\<lparr>head_next_node := q\<rparr>)\<rparr>))
      | Heap a \<Rightarrow>
          (case heap w a of
             None \<Rightarrow> Inl Dangling
           | Some n \<Rightarrow> Inr (w\<lparr>heap := (heap w)(a \<mapsto> n\<lparr>next_node := q\<rparr>)\<rparr>)))"

text \<open>
  \<^verbatim>\<open>p->value\<close>. The sentinel holds no element: the source documents dereferencing
  \<^verbatim>\<open>before_begin()\<close> as undefined behaviour, so reading the sentinel's
  value-initialised \<^verbatim>\<open>value\<close> member is a fault here.
\<close>

definition get_value :: "'a world \<Rightarrow> ptr \<Rightarrow> fault + 'a" where
  "get_value w p =
     (case p of
        nullptr \<Rightarrow> Inl NullDeref
      | Head l \<Rightarrow> Inl SentinelValue
      | Heap a \<Rightarrow> (case heap w a of None \<Rightarrow> Inl Dangling | Some n \<Rightarrow> Inr (node_value n)))"

text \<open>\<^verbatim>\<open>new Node(v, nx)\<close>\<close>

definition new_Node :: "'a \<Rightarrow> ptr \<Rightarrow> 'a world \<Rightarrow> ptr \<times> 'a world" where
  "new_Node v nx w =
     (Heap (brk w),
      w\<lparr>heap := (heap w)(brk w \<mapsto> \<lparr>node_value = v, next_node = nx\<rparr>), brk := Suc (brk w)\<rparr>)"

text \<open>\<^verbatim>\<open>delete p\<close>\<close>

definition delete_Node :: "ptr \<Rightarrow> 'a world \<Rightarrow> fault + 'a world" where
  "delete_Node p w =
     (case p of
        nullptr \<Rightarrow> Inr w
      | Head l \<Rightarrow> Inl BadDelete
      | Heap a \<Rightarrow>
          (case heap w a of
             None \<Rightarrow> Inl Dangling
           | Some n \<Rightarrow> Inr (w\<lparr>heap := (heap w)(a := None)\<rparr>)))"

text \<open>Reading and writing \<^verbatim>\<open>size_\<close> of the list object \<open>this\<close>.\<close>

definition get_size :: "'a world \<Rightarrow> obj \<Rightarrow> fault + size_t" where
  "get_size w this =
     (case lists w this of None \<Rightarrow> Inl Dangling | Some s \<Rightarrow> Inr (list_size s))"

definition set_size :: "obj \<Rightarrow> size_t \<Rightarrow> 'a world \<Rightarrow> fault + 'a world" where
  "set_size this n w =
     (case lists w this of
        None \<Rightarrow> Inl Dangling
      | Some s \<Rightarrow> Inr (w\<lparr>lists := (lists w)(this \<mapsto> s\<lparr>list_size := n\<rparr>)\<rparr>))"

text \<open>\<^verbatim>\<open>++size_\<close> and \<^verbatim>\<open>--size_\<close>, on 64-bit unsigned arithmetic.\<close>

definition incr_size :: "obj \<Rightarrow> 'a world \<Rightarrow> fault + 'a world" where
  "incr_size this w =
     (case get_size w this of Inl e \<Rightarrow> Inl e | Inr n \<Rightarrow> set_size this (n + 1) w)"

definition decr_size :: "obj \<Rightarrow> 'a world \<Rightarrow> fault + 'a world" where
  "decr_size this w =
     (case get_size w this of Inl e \<Rightarrow> Inl e | Inr n \<Rightarrow> set_size this (n - 1) w)"

section \<open>Iterators\<close>

text \<open>
  A \<^verbatim>\<open>BasicIterator\<close> is its \<^verbatim>\<open>node_\<close> member; the mutable and the constant
  iterator differ only in the type they dereference to.
\<close>

type_synonym Iterator = ptr

definition begin_it :: "'a world \<Rightarrow> obj \<Rightarrow> fault + Iterator" where
  "begin_it w this = get_next w (Head this)"

definition end_it :: Iterator where
  "end_it = nullptr"

definition before_begin :: "obj \<Rightarrow> Iterator" where
  "before_begin this = Head this"

definition cbefore_begin :: "obj \<Rightarrow> Iterator" where
  "cbefore_begin this = Head this"

text \<open>\<^verbatim>\<open>operator++\<close>: follows the link only from a non-null node.\<close>

definition iter_incr :: "'a world \<Rightarrow> Iterator \<Rightarrow> fault + Iterator" where
  "iter_incr w it = (if it \<noteq> nullptr then get_next w it else Inr it)"

text \<open>\<^verbatim>\<open>operator*\<close>\<close>

definition iter_deref :: "'a world \<Rightarrow> Iterator \<Rightarrow> fault + 'a" where
  "iter_deref w it = (if it = nullptr then Inl AssertionFailed else get_value w it)"

section \<open>The operations of the list\<close>

definition GetSize :: "'a world \<Rightarrow> obj \<Rightarrow> fault + size_t" where
  "GetSize w this = get_size w this"

definition IsEmpty :: "'a world \<Rightarrow> obj \<Rightarrow> fault + bool" where
  "IsEmpty w this = (case get_size w this of Inl e \<Rightarrow> Inl e | Inr n \<Rightarrow> Inr (n = 0))"

definition PushFront :: "obj \<Rightarrow> 'a \<Rightarrow> 'a world \<Rightarrow> fault + 'a world" where
  "PushFront this v w =
     (case get_next w (Head this) of
        Inl e \<Rightarrow> Inl e
      | Inr first \<Rightarrow>
          (case new_Node v first w of
             (n, w1) \<Rightarrow>
               (case set_next (Head this) n w1 of
                  Inl e \<Rightarrow> Inl e
                | Inr w2 \<Rightarrow> incr_size this w2)))"

definition InsertAfter :: "obj \<Rightarrow> Iterator \<Rightarrow> 'a \<Rightarrow> 'a world \<Rightarrow> fault + (Iterator \<times> 'a world)" where
  "InsertAfter this pos v w =
     (if pos = cbefore_begin this then
        (case PushFront this v w of
           Inl e \<Rightarrow> Inl e
         | Inr w1 \<Rightarrow>
             (case incr_size this w1 of
                Inl e \<Rightarrow> Inl e
              | Inr w2 \<Rightarrow>
                  (case begin_it w2 this of Inl e \<Rightarrow> Inl e | Inr b \<Rightarrow> Inr (b, w2))))
      else
        (case get_next w pos of
           Inl e \<Rightarrow> Inl e
         | Inr nx \<Rightarrow>
             (case new_Node v nx w of
                (new_node, w1) \<Rightarrow>
                  (case set_next pos new_node w1 of
                     Inl e \<Rightarrow> Inl e
                   | Inr w2 \<Rightarrow>
                       (case incr_size this w2 of
                          Inl e \<Rightarrow> Inl e
                        | Inr w3 \<Rightarrow> Inr (new_node, w3))))))"

definition EraseAfter :: "obj \<Rightarrow> Iterator \<Rightarrow> 'a world \<Rightarrow> fault + (Iterator \<times> 'a world)" where
  "EraseAfter this pos w =
     (if pos = nullptr then Inl AssertionFailed
      else
        (case get_next w pos of
           Inl e \<Rightarrow> Inl e
         | Inr to_delete_node \<Rightarrow>
             (case get_next w to_delete_node of
                Inl e \<Rightarrow> Inl e
              | Inr nx \<Rightarrow>
                  (case set_next pos nx w of
                     Inl e \<Rightarrow> Inl e
                   | Inr w1 \<Rightarrow>
                       (case delete_Node to_delete_node w1 of
                          Inl e \<Rightarrow> Inl e
                        | Inr w2 \<Rightarrow>
                            (case decr_size this w2 of
                               Inl e \<Rightarrow> Inl e
                             | Inr w3 \<Rightarrow>
                                 (case get_next w3 pos of
                                    Inl e \<Rightarrow> Inl e
                                  | Inr r \<Rightarrow> Inr (r, w3))))))))"

definition PopFront :: "obj \<Rightarrow> 'a world \<Rightarrow> fault + 'a world" where
  "PopFront this w =
     (case get_size w this of
        Inl e \<Rightarrow> Inl e
      | Inr n \<Rightarrow>
          if \<not> 0 < n then Inl AssertionFailed
          else
            (case get_next w (Head this) of
               Inl e \<Rightarrow> Inl e
             | Inr first \<Rightarrow>
                 (case get_next w first of
                    Inl e \<Rightarrow> Inl e
                  | Inr tmp \<Rightarrow>
                      (case delete_Node first w of
                         Inl e \<Rightarrow> Inl e
                       | Inr w1 \<Rightarrow>
                           (case set_next (Head this) tmp w1 of
                              Inl e \<Rightarrow> Inl e
                            | Inr w2 \<Rightarrow> decr_size this w2)))))"

text \<open>
  The loop of \<^verbatim>\<open>Clear\<close>. A loop over the heap need not end (the chain may be
  cyclic), so it is a partial function: \<open>None\<close> is a run that never returns.
\<close>

partial_function (option) Clear_loop :: "obj \<Rightarrow> 'a world \<Rightarrow> (fault + 'a world) option" where
  "Clear_loop this w =
     (case get_next w (Head this) of
        Inl e \<Rightarrow> Some (Inl e)
      | Inr first \<Rightarrow>
          if first = nullptr then Some (Inr w)
          else
            (case get_next w first of
               Inl e \<Rightarrow> Some (Inl e)
             | Inr tmp \<Rightarrow>
                 (case delete_Node first w of
                    Inl e \<Rightarrow> Some (Inl e)
                  | Inr w1 \<Rightarrow>
                      (case set_next (Head this) tmp w1 of
                         Inl e \<Rightarrow> Some (Inl e)
                       | Inr w2 \<Rightarrow> Clear_loop this w2))))"

definition Clear :: "obj \<Rightarrow> 'a world \<Rightarrow> (fault + 'a world) option" where
  "Clear this w =
     (case Clear_loop this w of
        None \<Rightarrow> None
      | Some (Inl e) \<Rightarrow> Some (Inl e)
      | Some (Inr w1) \<Rightarrow> Some (set_size this 0 w1))"

definition swap :: "obj \<Rightarrow> obj \<Rightarrow> 'a world \<Rightarrow> fault + 'a world" where
  "swap this other w =
     (case get_next w (Head this) of
        Inl e \<Rightarrow> Inl e
      | Inr nx \<Rightarrow>
          (case get_size w this of
             Inl e \<Rightarrow> Inl e
           | Inr t_size \<Rightarrow>
               (case get_size w other of
                  Inl e \<Rightarrow> Inl e
                | Inr other_size \<Rightarrow>
                    (case set_size this other_size w of
                       Inl e \<Rightarrow> Inl e
                     | Inr w1 \<Rightarrow>
                         (case get_next w1 (Head other) of
                            Inl e \<Rightarrow> Inl e
                          | Inr other_next \<Rightarrow>
                              (case set_next (Head this) other_next w1 of
                                 Inl e \<Rightarrow> Inl e
                               | Inr w2 \<Rightarrow>
                                   (case set_size other t_size w2 of
                                      Inl e \<Rightarrow> Inl e
                                    | Inr w3 \<Rightarrow> set_next (Head other) nx w3)))))))"

section \<open>Construction, destruction, assignment\<close>

text \<open>
  The default member initialisers \<^verbatim>\<open>head_ = {}\<close> and \<^verbatim>\<open>size_ = 0\<close>, run by every
  constructor on the storage \<open>this\<close>.
\<close>

definition init_members :: "obj \<Rightarrow> 'a world \<Rightarrow> 'a world" where
  "init_members this w =
     w\<lparr>lists := (lists w)(this \<mapsto> \<lparr>head_next_node = nullptr, list_size = 0\<rparr>)\<rparr>"

definition SingleLinkedList_default :: "obj \<Rightarrow> 'a world \<Rightarrow> 'a world" where
  "SingleLinkedList_default this w = init_members this w"

text \<open>
  \<^verbatim>\<open>MakeList\<close> runs two loops: it pushes the range onto a \<^verbatim>\<open>std::stack\<close> (a list
  with its top in front), then empties the stack through \<^verbatim>\<open>PushFront\<close>. The second
  loop is the same for every iterator type.
\<close>

fun MakeList_drain :: "obj \<Rightarrow> 'a list \<Rightarrow> 'a world \<Rightarrow> fault + 'a world" where
  "MakeList_drain this [] w = Inr w"
| "MakeList_drain this (v # tmp) w =
     (case PushFront this v w of
        Inl e \<Rightarrow> Inl e
      | Inr w1 \<Rightarrow> MakeList_drain this tmp w1)"

text \<open>The first loop over the array of a \<^verbatim>\<open>std::initializer_list\<close>.\<close>

fun push_range :: "'a list \<Rightarrow> 'a list \<Rightarrow> 'a list" where
  "push_range [] tmp = tmp"
| "push_range (v # vs) tmp = push_range vs (v # tmp)"

definition MakeList_values :: "obj \<Rightarrow> 'a list \<Rightarrow> 'a world \<Rightarrow> fault + 'a world" where
  "MakeList_values this vs w = MakeList_drain this (push_range vs []) w"

text \<open>The first loop over a range of list iterators.\<close>

partial_function (option) push_iter_range ::
  "'a world \<Rightarrow> Iterator \<Rightarrow> Iterator \<Rightarrow> 'a list \<Rightarrow> (fault + 'a list) option" where
  "push_iter_range w it fin tmp =
     (if it \<noteq> fin then
        (case iter_deref w it of
           Inl e \<Rightarrow> Some (Inl e)
         | Inr v \<Rightarrow>
             (case iter_incr w it of
                Inl e \<Rightarrow> Some (Inl e)
              | Inr it1 \<Rightarrow> push_iter_range w it1 fin (v # tmp)))
      else Some (Inr tmp))"

definition MakeList_iter ::
  "obj \<Rightarrow> Iterator \<Rightarrow> Iterator \<Rightarrow> 'a world \<Rightarrow> (fault + 'a world) option" where
  "MakeList_iter this start fin w =
     (case push_iter_range w start fin [] of
        None \<Rightarrow> None
      | Some (Inl e) \<Rightarrow> Some (Inl e)
      | Some (Inr tmp) \<Rightarrow> Some (MakeList_drain this tmp w))"

text \<open>\<^verbatim>\<open>SingleLinkedList(std::initializer_list<Type> values)\<close>\<close>

definition SingleLinkedList_init :: "obj \<Rightarrow> 'a list \<Rightarrow> 'a world \<Rightarrow> fault + 'a world" where
  "SingleLinkedList_init this vs w =
     (case MakeList_values this vs (init_members this w) of
        Inl e \<Rightarrow> Inl e
      | Inr w1 \<Rightarrow> set_size this (of_nat (length vs)) w1)"

text \<open>\<^verbatim>\<open>SingleLinkedList(const SingleLinkedList& other)\<close>\<close>

definition SingleLinkedList_copy :: "obj \<Rightarrow> obj \<Rightarrow> 'a world \<Rightarrow> (fault + 'a world) option" where
  "SingleLinkedList_copy this other w =
     (let w0 = init_members this w in
      case begin_it w0 other of
        Inl e \<Rightarrow> Some (Inl e)
      | Inr b \<Rightarrow>
          (case MakeList_iter this b end_it w0 of
             None \<Rightarrow> None
           | Some (Inl e) \<Rightarrow> Some (Inl e)
           | Some (Inr w1) \<Rightarrow>
               (case get_size w1 other of
                  Inl e \<Rightarrow> Some (Inl e)
                | Inr n \<Rightarrow> Some (set_size this n w1))))"

text \<open>The destructor clears the list; afterwards the object is gone.\<close>

definition SingleLinkedList_destroy :: "obj \<Rightarrow> 'a world \<Rightarrow> (fault + 'a world) option" where
  "SingleLinkedList_destroy this w =
     (case Clear this w of
        None \<Rightarrow> None
      | Some (Inl e) \<Rightarrow> Some (Inl e)
      | Some (Inr w1) \<Rightarrow> Some (Inr (w1\<lparr>lists := (lists w1)(this := None)\<rparr>)))"

text \<open>
  \<^verbatim>\<open>operator=\<close>: the local \<^verbatim>\<open>rhs_copy\<close> takes the next automatic slot, is swapped
  with \<open>this\<close> and destroyed at the end of the block.
\<close>

definition assign :: "obj \<Rightarrow> obj \<Rightarrow> 'a world \<Rightarrow> (fault + 'a world) option" where
  "assign this rhs w =
     (if this \<noteq> rhs then
        (let rhs_copy = next_obj w; w0 = w\<lparr>next_obj := Suc (next_obj w)\<rparr> in
         case SingleLinkedList_copy rhs_copy rhs w0 of
           None \<Rightarrow> None
         | Some (Inl e) \<Rightarrow> Some (Inl e)
         | Some (Inr w1) \<Rightarrow>
             (case swap this rhs_copy w1 of
                Inl e \<Rightarrow> Some (Inl e)
              | Inr w2 \<Rightarrow> SingleLinkedList_destroy rhs_copy w2))
      else Some (Inr w))"

section \<open>Comparison\<close>

text \<open>
  \<^verbatim>\<open>operator==\<close> and \<^verbatim>\<open>operator<\<close> hand the two iterator ranges to the standard
  algorithms \<^verbatim>\<open>std::equal\<close> and \<^verbatim>\<open>std::lexicographical_compare\<close>. These belong to
  the C++ standard library, not to the repository; they are written here as the standard
  describes them for forward iterators, which cannot measure a range before walking it:
  both advance through the two ranges in step. The comparison of the element type is a
  parameter (\<open>eq\<close> for \<^verbatim>\<open>==\<close>, \<open>lt\<close> for \<^verbatim>\<open><\<close>).
\<close>

partial_function (option) std_equal ::
  "('a \<Rightarrow> 'a \<Rightarrow> bool) \<Rightarrow> 'a world \<Rightarrow> Iterator \<Rightarrow> Iterator \<Rightarrow> Iterator \<Rightarrow> Iterator
     \<Rightarrow> (fault + bool) option" where
  "std_equal eq w first1 last1 first2 last2 =
     (if first1 \<noteq> last1 \<and> first2 \<noteq> last2 then
        (case iter_deref w first1 of
           Inl e \<Rightarrow> Some (Inl e)
         | Inr x \<Rightarrow>
             (case iter_deref w first2 of
                Inl e \<Rightarrow> Some (Inl e)
              | Inr y \<Rightarrow>
                  if \<not> eq x y then Some (Inr False)
                  else
                    (case iter_incr w first1 of
                       Inl e \<Rightarrow> Some (Inl e)
                     | Inr next1 \<Rightarrow>
                         (case iter_incr w first2 of
                            Inl e \<Rightarrow> Some (Inl e)
                          | Inr next2 \<Rightarrow> std_equal eq w next1 last1 next2 last2))))
      else Some (Inr (first1 = last1 \<and> first2 = last2)))"

partial_function (option) std_lexicographical_compare ::
  "('a \<Rightarrow> 'a \<Rightarrow> bool) \<Rightarrow> 'a world \<Rightarrow> Iterator \<Rightarrow> Iterator \<Rightarrow> Iterator \<Rightarrow> Iterator
     \<Rightarrow> (fault + bool) option" where
  "std_lexicographical_compare lt w first1 last1 first2 last2 =
     (if first1 \<noteq> last1 \<and> first2 \<noteq> last2 then
        (case iter_deref w first1 of
           Inl e \<Rightarrow> Some (Inl e)
         | Inr x \<Rightarrow>
             (case iter_deref w first2 of
                Inl e \<Rightarrow> Some (Inl e)
              | Inr y \<Rightarrow>
                  if lt x y then Some (Inr True)
                  else if lt y x then Some (Inr False)
                  else
                    (case iter_incr w first1 of
                       Inl e \<Rightarrow> Some (Inl e)
                     | Inr next1 \<Rightarrow>
                         (case iter_incr w first2 of
                            Inl e \<Rightarrow> Some (Inl e)
                          | Inr next2 \<Rightarrow>
                              std_lexicographical_compare lt w next1 last1 next2 last2))))
      else Some (Inr (first1 = last1 \<and> first2 \<noteq> last2)))"

definition operator_eq ::
  "('a \<Rightarrow> 'a \<Rightarrow> bool) \<Rightarrow> 'a world \<Rightarrow> obj \<Rightarrow> obj \<Rightarrow> (fault + bool) option" where
  "operator_eq eq w lhs rhs =
     (case begin_it w lhs of
        Inl e \<Rightarrow> Some (Inl e)
      | Inr b1 \<Rightarrow>
          (case begin_it w rhs of
             Inl e \<Rightarrow> Some (Inl e)
           | Inr b2 \<Rightarrow> std_equal eq w b1 end_it b2 end_it))"

definition operator_less ::
  "('a \<Rightarrow> 'a \<Rightarrow> bool) \<Rightarrow> 'a world \<Rightarrow> obj \<Rightarrow> obj \<Rightarrow> (fault + bool) option" where
  "operator_less lt w lhs rhs =
     (case begin_it w lhs of
        Inl e \<Rightarrow> Some (Inl e)
      | Inr b1 \<Rightarrow>
          (case begin_it w rhs of
             Inl e \<Rightarrow> Some (Inl e)
           | Inr b2 \<Rightarrow> std_lexicographical_compare lt w b1 end_it b2 end_it))"

section \<open>Iteration\<close>

text \<open>
  What a caller sees of a list: the values a loop
  \<^verbatim>\<open>for (auto it = l.begin(); it != l.end(); ++it) out.push_back(*it);\<close> collects.
\<close>

partial_function (option) iterate ::
  "'a world \<Rightarrow> Iterator \<Rightarrow> Iterator \<Rightarrow> 'a list \<Rightarrow> (fault + 'a list) option" where
  "iterate w it fin out =
     (if it \<noteq> fin then
        (case iter_deref w it of
           Inl e \<Rightarrow> Some (Inl e)
         | Inr v \<Rightarrow>
             (case iter_incr w it of
                Inl e \<Rightarrow> Some (Inl e)
              | Inr it1 \<Rightarrow> iterate w it1 fin (out @ [v])))
      else Some (Inr out))"

definition to_list :: "'a world \<Rightarrow> obj \<Rightarrow> (fault + 'a list) option" where
  "to_list w this =
     (case begin_it w this of Inl e \<Rightarrow> Some (Inl e) | Inr b \<Rightarrow> iterate w b end_it [])"

section \<open>Well-formed lists\<close>

text \<open>
  \<open>chain h p ns\<close>: from the pointer \<open>p\<close> the heap \<open>h\<close> holds exactly the nodes \<open>ns\<close>,
  each given by its address and its value, linked in this order and ended by the null
  pointer. \<open>list_at w this ns\<close>: the list object \<open>this\<close> is alive and \<open>ns\<close> are its real
  nodes.
\<close>

fun chain :: "(addr \<Rightarrow> 'a Node option) \<Rightarrow> ptr \<Rightarrow> (addr \<times> 'a) list \<Rightarrow> bool" where
  "chain h p [] = (p = nullptr)"
| "chain h p ((a, x) # ns) =
     (p = Heap a \<and>
      (case h a of None \<Rightarrow> False | Some n \<Rightarrow> node_value n = x \<and> chain h (next_node n) ns))"

definition list_at :: "'a world \<Rightarrow> obj \<Rightarrow> (addr \<times> 'a) list \<Rightarrow> bool" where
  "list_at w this ns =
     (case lists w this of None \<Rightarrow> False | Some s \<Rightarrow> chain (heap w) (head_next_node s) ns)"

text \<open>The allocator has handed out only addresses below \<open>brk\<close>.\<close>

definition heap_ok :: "'a world \<Rightarrow> bool" where
  "heap_ok w = (\<forall>a. brk w \<le> a \<longrightarrow> heap w a = None)"

text \<open>
  The positions that may be passed to \<^verbatim>\<open>InsertAfter\<close> and \<^verbatim>\<open>EraseAfter\<close>: the
  position before the first element, then one per node.
\<close>

definition positions :: "obj \<Rightarrow> (addr \<times> 'a) list \<Rightarrow> Iterator list" where
  "positions this ns = before_begin this # map (\<lambda>n. Heap (fst n)) ns"

text \<open>
  The lexicographic comparison of two sequences by an ordering \<open>lt\<close> of their elements,
  as a specification: the sequences agree (neither element orders before the other) up
  to some index, and there either the first sequence has ended while the second goes on,
  or the element of the first orders before the element of the second.
\<close>

definition lexicographic_less :: "('a \<Rightarrow> 'a \<Rightarrow> bool) \<Rightarrow> 'a list \<Rightarrow> 'a list \<Rightarrow> bool" where
  "lexicographic_less lt xs ys =
     (\<exists>i. i \<le> length xs \<and> i < length ys
        \<and> (\<forall>j < i. \<not> lt (xs ! j) (ys ! j) \<and> \<not> lt (ys ! j) (xs ! j))
        \<and> (i = length xs \<or> lt (xs ! i) (ys ! i)))"

text \<open>
  A world with no node and no list, the same with an empty list as object 0, and the same
  with empty lists as objects 0 and 1.
\<close>

definition empty_world :: "'a world" where
  "empty_world = \<lparr>heap = (\<lambda>a. None), brk = 0, lists = (\<lambda>l. None), next_obj = 0\<rparr>"

definition one_list_world :: "'a world" where
  "one_list_world = SingleLinkedList_default 0 (empty_world\<lparr>next_obj := 1\<rparr>)"

definition two_empty_lists :: "'a world" where
  "two_empty_lists =
     SingleLinkedList_default 1 (SingleLinkedList_default 0 (empty_world\<lparr>next_obj := 2\<rparr>))"

text \<open>
  Two lists as the constructors build them: object 0 holds \<open>[1, 2]\<close>, object 1 holds
  \<open>[1, 2, 3]\<close>. And object 0 with the single node 7 and a given stored size.
\<close>

definition sample_world :: "int world" where
  "sample_world =
     \<lparr>heap = (\<lambda>a. None)
        (0 \<mapsto> \<lparr>node_value = 2, next_node = nullptr\<rparr>,
         1 \<mapsto> \<lparr>node_value = 1, next_node = Heap 0\<rparr>,
         2 \<mapsto> \<lparr>node_value = 3, next_node = nullptr\<rparr>,
         3 \<mapsto> \<lparr>node_value = 2, next_node = Heap 2\<rparr>,
         4 \<mapsto> \<lparr>node_value = 1, next_node = Heap 3\<rparr>),
      brk = 5,
      lists = (\<lambda>l. None)
        (0 \<mapsto> \<lparr>head_next_node = Heap 1, list_size = 2\<rparr>,
         1 \<mapsto> \<lparr>head_next_node = Heap 4, list_size = 3\<rparr>),
      next_obj = 2\<rparr>"

definition one_node_world :: "size_t \<Rightarrow> int world" where
  "one_node_world n =
     \<lparr>heap = (\<lambda>a. None)(0 \<mapsto> \<lparr>node_value = 7, next_node = nullptr\<rparr>),
      brk = 1,
      lists = (\<lambda>l. None)(0 \<mapsto> \<lparr>head_next_node = Heap 0, list_size = n\<rparr>),
      next_obj = 1\<rparr>"

section \<open>Properties\<close>

lemmas op_defs = PushFront_def InsertAfter_def get_next_def new_Node_def set_next_def
  incr_size_def get_size_def set_size_def begin_it_def before_begin_def cbefore_begin_def

subsection \<open>Chains and the loops that walk them\<close>

lemma chain_allocated: "chain h p ns \<Longrightarrow> (a, x) \<in> set ns \<Longrightarrow> h a \<noteq> None"
  by (induction ns arbitrary: p) (auto split: option.splits)

lemma chain_upd_other:
  "chain h p ns \<Longrightarrow> a \<notin> fst ` set ns \<Longrightarrow> chain (h(a := y)) p ns"
  by (induction ns arbitrary: p) (auto split: option.splits)

lemma chain_functional: "chain h p ns \<Longrightarrow> chain h p ms \<Longrightarrow> ns = ms"
proof (induction ns arbitrary: p ms)
  case Nil
  then show ?case by (cases ms) auto
next
  case (Cons n ns)
  then show ?case by (cases ms; cases n) (auto split: option.splits)
qed

lemma chain_append:
  "chain h p (ns @ ms) \<Longrightarrow> \<exists>q. chain h q ms"
  by (induction ns arbitrary: p) (auto split: option.splits)

lemma chain_head_notin_tail:
  assumes "chain h (Heap a) ((a, x) # ns)"
  shows "a \<notin> fst ` set ns"
proof
  assume "a \<in> fst ` set ns"
  then obtain y where "(a, y) \<in> set ns" by auto
  then obtain us vs where ns: "ns = us @ (a, y) # vs"
    by (auto simp: in_set_conv_decomp)
  with assms have "chain h (Heap a) (((a, x) # us) @ (a, y) # vs)" by simp
  from chain_append [OF this] obtain q where q: "chain h q ((a, y) # vs)" ..
  then have "q = Heap a" by simp
  with q have "chain h (Heap a) ((a, y) # vs)" by simp
  from chain_functional [OF this assms] have "(a, y) # vs = (a, x) # ns" .
  with ns show False by simp
qed

lemma chain_distinct: "chain h p ns \<Longrightarrow> distinct (map fst ns)"
proof (induction ns arbitrary: p)
  case Nil
  then show ?case by simp
next
  case (Cons n ns)
  obtain a x where n: "n = (a, x)" by (cases n)
  from Cons.prems n have "a \<notin> fst ` set ns"
    using chain_head_notin_tail by fastforce
  moreover from Cons.prems n obtain q where "chain h q ns"
    by (auto split: option.splits)
  ultimately show ?case using Cons.IH n by simp
qed

lemma iterate_chain:
  "chain (heap w) p ns \<Longrightarrow> iterate w p nullptr out = Some (Inr (out @ map snd ns))"
proof (induction ns arbitrary: p out)
  case Nil
  then show ?case by (simp add: iterate.simps)
next
  case (Cons n ns)
  obtain a x where n: "n = (a, x)" by (cases n)
  from Cons.prems n obtain m where m: "heap w a = Some m" "node_value m = x"
    "chain (heap w) (next_node m) ns" and p: "p = Heap a"
    by (auto split: option.splits)
  have "iterate w p nullptr out = iterate w (next_node m) nullptr (out @ [x])"
    using m p
    by (subst iterate.simps) (simp add: iter_deref_def iter_incr_def get_value_def get_next_def)
  with Cons.IH [OF m(3)] n show ?case by simp
qed

lemma to_list_list_at:
  "list_at w this ns \<Longrightarrow> to_list w this = Some (Inr (map snd ns))"
  by (auto simp: list_at_def to_list_def begin_it_def get_next_def end_it_def iterate_chain
      split: option.splits)

lemma push_iter_range_chain:
  "chain (heap w) p ns \<Longrightarrow>
     push_iter_range w p nullptr tmp = Some (Inr (rev (map snd ns) @ tmp))"
proof (induction ns arbitrary: p tmp)
  case Nil
  then show ?case by (simp add: push_iter_range.simps)
next
  case (Cons n ns)
  obtain a x where n: "n = (a, x)" by (cases n)
  from Cons.prems n obtain m where m: "heap w a = Some m" "node_value m = x"
    "chain (heap w) (next_node m) ns" and p: "p = Heap a"
    by (auto split: option.splits)
  have "push_iter_range w p nullptr tmp = push_iter_range w (next_node m) nullptr (x # tmp)"
    using m p
    by (subst push_iter_range.simps)
      (simp add: iter_deref_def iter_incr_def get_value_def get_next_def)
  with Cons.IH [OF m(3)] n show ?case by simp
qed

lemma PushFront_eq:
  "lists w this = Some s \<Longrightarrow>
   PushFront this v w =
     Inr (w\<lparr>heap := (heap w)(brk w \<mapsto> \<lparr>node_value = v, next_node = head_next_node s\<rparr>),
            brk := Suc (brk w),
            lists := (lists w)(this \<mapsto> s\<lparr>head_next_node := Heap (brk w), list_size := list_size s + 1\<rparr>)\<rparr>)"
  by (simp add: PushFront_def get_next_def new_Node_def set_next_def incr_size_def
      get_size_def set_size_def)


lemma chain_cong:
  "chain h p ns \<Longrightarrow> (\<And>a. a \<in> fst ` set ns \<Longrightarrow> h' a = h a) \<Longrightarrow> chain h' p ns"
proof (induction ns arbitrary: p)
  case Nil
  then show ?case by simp
next
  case (Cons n ns)
  obtain a x where n: "n = (a, x)" by (cases n)
  from Cons.prems(1) n obtain m where m: "h a = Some m" "node_value m = x"
    "chain h (next_node m) ns" and p: "p = Heap a"
    by (auto split: option.splits)
  have "h' a = h a" using Cons.prems(2) n by simp
  moreover have "chain h' (next_node m) ns"
    using Cons.IH [OF m(3)] Cons.prems(2) by simp
  ultimately show ?case using m p n by simp
qed

lemma chain_below_brk:
  "heap_ok w \<Longrightarrow> chain (heap w) p ns \<Longrightarrow> a \<in> fst ` set ns \<Longrightarrow> a < brk w"
  using chain_allocated [of "heap w" p ns a] unfolding heap_ok_def
  by (metis imageE linorder_not_less prod.collapse)

lemma PushFront_list_at:
  assumes ok: "heap_ok w" and l: "list_at w this ns"
  shows "\<exists>w'. PushFront this v w = Inr w' \<and> heap_ok w' \<and> list_at w' this ((brk w, v) # ns)
           \<and> brk w' = Suc (brk w) \<and> (\<forall>a. a \<noteq> brk w \<longrightarrow> heap w' a = heap w a)
           \<and> (\<forall>l. l \<noteq> this \<longrightarrow> lists w' l = lists w l)"
proof -
  from l obtain s where s: "lists w this = Some s" "chain (heap w) (head_next_node s) ns"
    by (auto simp: list_at_def split: option.splits)
  have fresh: "brk w \<notin> fst ` set ns"
    using chain_below_brk [OF ok s(2)] by blast
  let ?w = "w\<lparr>heap := (heap w)(brk w \<mapsto> \<lparr>node_value = v, next_node = head_next_node s\<rparr>),
            brk := Suc (brk w),
            lists := (lists w)(this \<mapsto> s\<lparr>head_next_node := Heap (brk w), list_size := list_size s + 1\<rparr>)\<rparr>"
  have "PushFront this v w = Inr ?w" by (rule PushFront_eq [OF s(1)])
  moreover have "heap_ok ?w" using ok by (simp add: heap_ok_def)
  moreover have "list_at ?w this ((brk w, v) # ns)"
    using chain_upd_other [OF s(2) fresh] by (simp add: list_at_def)
  ultimately show ?thesis by simp
qed

lemma MakeList_drain_list_at:
  assumes "heap_ok w" and "list_at w this ns"
  shows "\<exists>w' ms. MakeList_drain this tmp w = Inr w' \<and> heap_ok w'
           \<and> list_at w' this (ms @ ns) \<and> map snd ms = rev tmp
           \<and> (\<forall>a \<in> fst ` set ms. brk w \<le> a) \<and> brk w \<le> brk w'
           \<and> (\<forall>a. a < brk w \<longrightarrow> heap w' a = heap w a)
           \<and> (\<forall>l. l \<noteq> this \<longrightarrow> lists w' l = lists w l)"
  using assms
proof (induction tmp arbitrary: w ns)
  case Nil
  then show ?case by simp
next
  case (Cons v tmp)
  from PushFront_list_at [OF Cons.prems, of v] obtain w1 where
    w1: "PushFront this v w = Inr w1" "heap_ok w1" "list_at w1 this ((brk w, v) # ns)"
      "brk w1 = Suc (brk w)" "\<forall>a. a \<noteq> brk w \<longrightarrow> heap w1 a = heap w a"
      "\<forall>l. l \<noteq> this \<longrightarrow> lists w1 l = lists w l"
    by blast
  from Cons.IH [OF w1(2,3)] obtain w' ms where
    w': "MakeList_drain this tmp w1 = Inr w'" "heap_ok w'"
      "list_at w' this (ms @ (brk w, v) # ns)" "map snd ms = rev tmp"
      "\<forall>a \<in> fst ` set ms. brk w1 \<le> a" "brk w1 \<le> brk w'"
      "\<forall>a. a < brk w1 \<longrightarrow> heap w' a = heap w1 a"
      "\<forall>l. l \<noteq> this \<longrightarrow> lists w' l = lists w1 l"
    by blast
  let ?ms = "ms @ [(brk w, v)]"
  have "MakeList_drain this (v # tmp) w = Inr w'" using w1(1) w'(1) by simp
  moreover have "list_at w' this (?ms @ ns)" using w'(3) by simp
  moreover have "map snd ?ms = rev (v # tmp)" using w'(4) by simp
  moreover have "\<forall>a \<in> fst ` set ?ms. brk w \<le> a" using w'(5) w1(4) by auto
  moreover have "brk w \<le> brk w'" using w'(6) w1(4) by simp
  moreover have "\<forall>a. a < brk w \<longrightarrow> heap w' a = heap w a" using w'(7) w1(4,5) by simp
  moreover have "\<forall>l. l \<noteq> this \<longrightarrow> lists w' l = lists w l" using w'(8) w1(6) by simp
  ultimately show ?case using w'(2) by blast
qed

lemma push_range_rev: "push_range vs tmp = rev vs @ tmp"
  by (induction vs arbitrary: tmp) simp_all

lemma list_at_init_members: "list_at (init_members this w) this []"
  by (simp add: list_at_def init_members_def)

lemma heap_ok_init_members: "heap_ok (init_members this w) = heap_ok w"
  by (simp add: heap_ok_def init_members_def)

lemma list_at_set_size:
  "set_size l n w = Inr w' \<Longrightarrow> list_at w' this ns = list_at w this ns"
  by (cases "this = l") (auto simp: set_size_def list_at_def split: option.splits)

lemma set_size_alive:
  "list_at w this ns \<Longrightarrow> \<exists>w'. set_size this n w = Inr w' \<and> get_size w' this = Inr n
      \<and> heap w' = heap w \<and> brk w' = brk w \<and> (\<forall>l. l \<noteq> this \<longrightarrow> lists w' l = lists w l)"
  by (auto simp: set_size_def get_size_def list_at_def split: option.splits)

subsection \<open>The sample worlds\<close>

lemma sample_world_built:
  "(case SingleLinkedList_init 0 [1, 2] (empty_world\<lparr>next_obj := 2\<rparr>) of
      Inl e \<Rightarrow> Inl e
    | Inr w \<Rightarrow> SingleLinkedList_init 1 [1, 2, 3] w) = Inr sample_world"
  by (simp add: sample_world_def empty_world_def SingleLinkedList_init_def MakeList_values_def
      init_members_def PushFront_def get_next_def new_Node_def set_next_def incr_size_def
      get_size_def set_size_def fun_eq_iff eval_nat_numeral)

lemma list_at_sample_0: "list_at sample_world 0 [(1, 1), (0, 2)]"
  by (simp add: list_at_def sample_world_def)

lemma list_at_sample_1: "list_at sample_world 1 [(4, 1), (3, 2), (2, 3)]"
  by (simp add: list_at_def sample_world_def)

lemma heap_ok_sample: "heap_ok sample_world"
  by (simp add: heap_ok_def sample_world_def)

subsection \<open>Comparison\<close>

lemma std_equal_chain:
  "chain (heap w) p xs \<Longrightarrow> chain (heap w) q ys \<Longrightarrow>
   std_equal eq w p nullptr q nullptr = Some (Inr (list_all2 eq (map snd xs) (map snd ys)))"
proof (induction xs arbitrary: p q ys)
  case Nil
  then show ?case by (cases ys) (auto simp: std_equal.simps)
next
  case (Cons n xs)
  obtain a x where n: "n = (a, x)" by (cases n)
  from Cons.prems(1) n obtain m where m: "heap w a = Some m" "node_value m = x"
    "chain (heap w) (next_node m) xs" and p: "p = Heap a"
    by (auto split: option.splits)
  show ?case
  proof (cases ys)
    case Nil
    with Cons.prems(2) p show ?thesis by (simp add: std_equal.simps)
  next
    case (Cons k ys')
    obtain b y where k: "k = (b, y)" by (cases k)
    from Cons.prems(2) Cons k obtain m' where m': "heap w b = Some m'" "node_value m' = y"
      "chain (heap w) (next_node m') ys'" and q: "q = Heap b"
      by (auto split: option.splits)
    have "std_equal eq w p nullptr q nullptr =
        (if \<not> eq x y then Some (Inr False)
         else std_equal eq w (next_node m) nullptr (next_node m') nullptr)"
      using m m' p q
      by (subst std_equal.simps)
        (simp add: iter_deref_def iter_incr_def get_value_def get_next_def)
    with Cons.IH [OF m(3) m'(3)] n k Cons show ?thesis by simp
  qed
qed

lemma lexicographic_less_Nil: "lexicographic_less lt [] ys = (ys \<noteq> [])"
  by (auto simp: lexicographic_less_def)

lemma lexicographic_less_Nil2: "lexicographic_less lt xs [] = False"
  by (simp add: lexicographic_less_def)

lemma lexicographic_less_Cons:
  "lexicographic_less lt (x # xs) (y # ys) =
     (lt x y \<or> (\<not> lt y x \<and> lexicographic_less lt xs ys))"
proof
  assume "lexicographic_less lt (x # xs) (y # ys)"
  then obtain i where i: "i \<le> length (x # xs)" "i < length (y # ys)"
    "\<forall>j < i. \<not> lt ((x # xs) ! j) ((y # ys) ! j) \<and> \<not> lt ((y # ys) ! j) ((x # xs) ! j)"
    "i = length (x # xs) \<or> lt ((x # xs) ! i) ((y # ys) ! i)"
    unfolding lexicographic_less_def by blast
  show "lt x y \<or> (\<not> lt y x \<and> lexicographic_less lt xs ys)"
  proof (cases i)
    case 0
    with i(4) show ?thesis by simp
  next
    case (Suc k)
    from i(3) Suc have h: "\<not> lt x y" "\<not> lt y x" by force+
    have "\<forall>j < k. \<not> lt (xs ! j) (ys ! j) \<and> \<not> lt (ys ! j) (xs ! j)"
    proof (intro allI impI)
      fix j assume "j < k"
      then have "Suc j < i" using Suc by simp
      with i(3) show "\<not> lt (xs ! j) (ys ! j) \<and> \<not> lt (ys ! j) (xs ! j)" by force
    qed
    moreover have "k \<le> length xs" "k < length ys" using i(1,2) Suc by simp_all
    moreover have "k = length xs \<or> lt (xs ! k) (ys ! k)" using i(4) Suc by simp
    ultimately have "lexicographic_less lt xs ys" unfolding lexicographic_less_def by blast
    with h show ?thesis by simp
  qed
next
  assume r: "lt x y \<or> (\<not> lt y x \<and> lexicographic_less lt xs ys)"
  show "lexicographic_less lt (x # xs) (y # ys)"
  proof (cases "lt x y")
    case True
    then show ?thesis unfolding lexicographic_less_def by (intro exI [of _ 0]) simp
  next
    case False
    with r have n: "\<not> lt y x" and l: "lexicographic_less lt xs ys" by simp_all
    from l obtain k where k: "k \<le> length xs" "k < length ys"
      "\<forall>j < k. \<not> lt (xs ! j) (ys ! j) \<and> \<not> lt (ys ! j) (xs ! j)"
      "k = length xs \<or> lt (xs ! k) (ys ! k)"
      unfolding lexicographic_less_def by blast
    have "\<forall>j < Suc k. \<not> lt ((x # xs) ! j) ((y # ys) ! j) \<and> \<not> lt ((y # ys) ! j) ((x # xs) ! j)"
    proof (intro allI impI)
      fix j assume j: "j < Suc k"
      show "\<not> lt ((x # xs) ! j) ((y # ys) ! j) \<and> \<not> lt ((y # ys) ! j) ((x # xs) ! j)"
        using j k(3) False n by (cases j) simp_all
    qed
    with k(1,2,4) show ?thesis
      unfolding lexicographic_less_def by (intro exI [of _ "Suc k"]) simp
  qed
qed

lemma std_lexicographical_compare_chain:
  "chain (heap w) p xs \<Longrightarrow> chain (heap w) q ys \<Longrightarrow>
   std_lexicographical_compare lt w p nullptr q nullptr =
     Some (Inr (lexicographic_less lt (map snd xs) (map snd ys)))"
proof (induction xs arbitrary: p q ys)
  case Nil
  then show ?case
    by (cases ys) (auto simp: std_lexicographical_compare.simps lexicographic_less_Nil)
next
  case (Cons n xs)
  obtain a x where n: "n = (a, x)" by (cases n)
  from Cons.prems(1) n obtain m where m: "heap w a = Some m" "node_value m = x"
    "chain (heap w) (next_node m) xs" and p: "p = Heap a"
    by (auto split: option.splits)
  show ?case
  proof (cases ys)
    case Nil
    with Cons.prems(2) p show ?thesis
      by (simp add: std_lexicographical_compare.simps lexicographic_less_Nil2)
  next
    case (Cons k ys')
    obtain b y where k: "k = (b, y)" by (cases k)
    from Cons.prems(2) Cons k obtain m' where m': "heap w b = Some m'" "node_value m' = y"
      "chain (heap w) (next_node m') ys'" and q: "q = Heap b"
      by (auto split: option.splits)
    have "std_lexicographical_compare lt w p nullptr q nullptr =
        (if lt x y then Some (Inr True) else if lt y x then Some (Inr False)
         else std_lexicographical_compare lt w (next_node m) nullptr (next_node m') nullptr)"
      using m m' p q
      by (subst std_lexicographical_compare.simps)
        (simp add: iter_deref_def iter_incr_def get_value_def get_next_def)
    also have "\<dots> = Some (Inr (lexicographic_less lt (x # map snd xs) (y # map snd ys')))"
      unfolding Cons.IH [OF m(3) m'(3)] lexicographic_less_Cons by simp
    finally show ?thesis using n k Cons by simp
  qed
qed

lemma lexicographic_less_linorder:
  fixes xs ys :: "('a :: linorder) list"
  shows "lexicographic_less (<) xs ys = ((xs, ys) \<in> lexord {(u, v). u < v})"
proof (induction xs arbitrary: ys)
  case Nil
  then show ?case by (cases ys) (simp_all add: lexicographic_less_Nil)
next
  case (Cons x xs)
  show ?case
  proof (cases ys)
    case Nil
    then show ?thesis by (simp add: lexicographic_less_Nil2)
  next
    case (Cons y ys')
    then show ?thesis using Cons.IH [of ys'] by (auto simp: lexicographic_less_Cons)
  qed
qed

lemma lexicographic_less_strict_prefix:
  assumes "\<And>x. \<not> lt x x"
  shows "lexicographic_less lt xs (xs @ z # zs)"
  unfolding lexicographic_less_def
  using assms by (intro exI [of _ "length xs"]) (simp add: nth_append)

lemma list_at_begin:
  "list_at w this ns \<Longrightarrow> \<exists>b. begin_it w this = Inr b \<and> chain (heap w) b ns"
  by (auto simp: list_at_def begin_it_def get_next_def split: option.splits)

lemma operator_eq_list_at:
  assumes "list_at w lhs ns" and "list_at w rhs ms"
  shows "operator_eq eq w lhs rhs = Some (Inr (list_all2 eq (map snd ns) (map snd ms)))"
proof -
  from list_at_begin [OF assms(1)] obtain b1 where
    b1: "begin_it w lhs = Inr b1" "chain (heap w) b1 ns" by blast
  from list_at_begin [OF assms(2)] obtain b2 where
    b2: "begin_it w rhs = Inr b2" "chain (heap w) b2 ms" by blast
  show ?thesis
    using b1 b2 by (simp add: operator_eq_def end_it_def std_equal_chain)
qed

lemma operator_less_list_at:
  assumes "list_at w lhs ns" and "list_at w rhs ms"
  shows "operator_less lt w lhs rhs =
     Some (Inr (lexicographic_less lt (map snd ns) (map snd ms)))"
proof -
  from list_at_begin [OF assms(1)] obtain b1 where
    b1: "begin_it w lhs = Inr b1" "chain (heap w) b1 ns" by blast
  from list_at_begin [OF assms(2)] obtain b2 where
    b2: "begin_it w rhs = Inr b2" "chain (heap w) b2 ms" by blast
  show ?thesis
    using b1 b2
    by (simp add: operator_less_def end_it_def std_lexicographical_compare_chain)
qed

lemma operator_eq_same_length_pairwise:
  assumes "list_at w lhs ns" and "list_at w rhs ms"
    and "xs = map snd ns" and "ys = map snd ms"
  shows "operator_eq eq w lhs rhs =
     Some (Inr (length xs = length ys \<and> (\<forall>i < length xs. eq (xs ! i) (ys ! i))))"
  using operator_eq_list_at [OF assms(1,2), of eq] assms(3,4)
  by (simp add: list_all2_conv_all_nth)

text \<open>
  C9. \<^verbatim>\<open>operator==\<close> evaluated on two lists the code builds from empty lists, one by
  \<^verbatim>\<open>InsertAfter(before_begin(), 7)\<close> and one by \<^verbatim>\<open>PushFront(7)\<close>: both iterate
  as \<open>[7]\<close> and \<^verbatim>\<open>operator==\<close> returns true, although the first has stored size 2
  and the second stored size 1. The operators walk the nodes and never read the stored
  size (on well-formed lists \<^verbatim>\<open>operator==\<close> is equal length and pairwise equal
  elements, \<^verbatim>\<open>operator<\<close> the lexicographic comparison, for every element ordering);
  the stored size is off because the before-begin branch of \<^verbatim>\<open>InsertAfter\<close> counts
  the node twice.
\<close>

theorem operator_eq_ignores_stored_size:
  "(case InsertAfter 0 (before_begin 0) 7 (two_empty_lists :: int world) of
      Inl e \<Rightarrow> False
    | Inr (it, w1) \<Rightarrow>
        (case PushFront 1 7 w1 of
           Inl e \<Rightarrow> False
         | Inr w2 \<Rightarrow>
             to_list w2 0 = Some (Inr [7]) \<and> to_list w2 1 = Some (Inr [7])
             \<and> operator_eq (=) w2 0 1 = Some (Inr True)
             \<and> GetSize w2 0 = Inr 2 \<and> GetSize w2 1 = Inr 1))"
proof -
  let ?w = "\<lparr>heap = (\<lambda>a. None)
        (0 \<mapsto> \<lparr>node_value = 7 :: int, next_node = nullptr\<rparr>,
         1 \<mapsto> \<lparr>node_value = 7, next_node = nullptr\<rparr>),
      brk = 2,
      lists = (\<lambda>l. None)
        (0 \<mapsto> \<lparr>head_next_node = Heap 0, list_size = 2\<rparr>,
         1 \<mapsto> \<lparr>head_next_node = Heap 1, list_size = 1\<rparr>),
      next_obj = 2\<rparr>"
  have run: "(case InsertAfter 0 (before_begin 0) 7 (two_empty_lists :: int world) of
      Inl e \<Rightarrow> Inl e | Inr (it, w1) \<Rightarrow> PushFront 1 7 w1) = Inr ?w"
    by (simp add: op_defs two_empty_lists_def empty_world_def SingleLinkedList_default_def
        init_members_def fun_eq_iff eval_nat_numeral)
  have l0: "list_at ?w 0 [(0, 7)]" by (simp add: list_at_def)
  have l1: "list_at ?w 1 [(1, 7)]" by (simp add: list_at_def)
  have "to_list ?w 0 = Some (Inr [7])" using to_list_list_at [OF l0] by simp
  moreover have "to_list ?w 1 = Some (Inr [7])" using to_list_list_at [OF l1] by simp
  moreover have "operator_eq (=) ?w 0 1 = Some (Inr True)"
    using operator_eq_list_at [OF l0 l1, of "(=)"] by simp
  moreover have "GetSize ?w 0 = Inr 2" "GetSize ?w 1 = Inr 1"
    by (simp_all add: GetSize_def get_size_def)
  ultimately show ?thesis using run by (auto split: sum.splits prod.splits)
qed

subsection \<open>Construction\<close>

text \<open>
  C6. Constructing a list from an ordered sequence of values (an initializer list, whose
  length is a \<^verbatim>\<open>size_t\<close>) succeeds and yields a well-formed list whose iteration
  visits exactly the given values in the given order and whose size is their number.
\<close>

theorem init_list_ctor:
  assumes "heap_ok w" and "length vs < 2 ^ 64"
  shows "\<exists>w' ns n. SingleLinkedList_init this vs w = Inr w' \<and> list_at w' this ns
           \<and> map snd ns = vs \<and> to_list w' this = Some (Inr vs)
           \<and> GetSize w' this = Inr n \<and> unat n = length vs"
proof -
  let ?w0 = "init_members this w"
  have "heap_ok ?w0" using assms(1) by (simp add: heap_ok_init_members)
  from MakeList_drain_list_at [OF this list_at_init_members, of "push_range vs []"]
  obtain w1 ms where w1: "MakeList_drain this (push_range vs []) ?w0 = Inr w1"
    "list_at w1 this ms" "map snd ms = vs"
    by (auto simp: push_range_rev)
  from set_size_alive [OF w1(2), of "of_nat (length vs)"] obtain w' where
    w': "set_size this (of_nat (length vs)) w1 = Inr w'"
      "get_size w' this = Inr (of_nat (length vs))"
    by blast
  have l: "list_at w' this ms" using list_at_set_size [OF w'(1)] w1(2) by simp
  have "SingleLinkedList_init this vs w = Inr w'"
    using w1(1) w'(1) by (simp add: SingleLinkedList_init_def MakeList_values_def)
  moreover have "to_list w' this = Some (Inr vs)"
    using to_list_list_at [OF l] w1(3) by simp
  moreover have "unat (of_nat (length vs) :: size_t) = length vs"
    using assms(2) by (simp add: unat_of_nat)
  ultimately show ?thesis using l w1(3) w'(2) by (auto simp: GetSize_def)
qed


theorem init_list_ctor_witness:
  "heap_ok (empty_world :: int world) \<and> length [1, 2, 3 :: int] < 2 ^ 64 \<and>
   (\<exists>w' ns n. SingleLinkedList_init 0 [1, 2, 3 :: int] empty_world = Inr w' \<and> list_at w' 0 ns
      \<and> map snd ns = [1, 2, 3] \<and> to_list w' 0 = Some (Inr [1, 2, 3])
      \<and> GetSize w' 0 = Inr n \<and> unat n = length [1, 2, 3 :: int])"
  using init_list_ctor [of "empty_world :: int world" "[1, 2, 3]" 0]
  by (simp add: heap_ok_def empty_world_def)

lemma list_at_frame:
  assumes "list_at w l ns" and "lists w' l = lists w l"
    and "\<And>a. a \<in> fst ` set ns \<Longrightarrow> heap w' a = heap w a"
  shows "list_at w' l ns"
  using assms by (auto simp: list_at_def intro: chain_cong split: option.splits)

lemma list_at_below_brk:
  "heap_ok w \<Longrightarrow> list_at w l ns \<Longrightarrow> a \<in> fst ` set ns \<Longrightarrow> a < brk w"
  by (auto simp: list_at_def dest: chain_below_brk split: option.splits)

text \<open>
  C7. Copy-constructing a list from a well-formed list \<open>other\<close> succeeds and yields a
  list with the same stored size and the same values in the same order, held in nodes of
  its own; \<open>other\<close> is unchanged and \<^verbatim>\<open>operator==\<close> finds the two equal.
\<close>

theorem copy_ctor:
  assumes ok: "heap_ok w" and src: "list_at w other ns" and ne: "this \<noteq> other"
    and sz: "GetSize w other = Inr n"
  shows "\<exists>w' ms. SingleLinkedList_copy this other w = Some (Inr w')
           \<and> list_at w' this ms \<and> list_at w' other ns
           \<and> map snd ms = map snd ns \<and> fst ` set ms \<inter> fst ` set ns = {}
           \<and> GetSize w' this = Inr n \<and> GetSize w' other = Inr n
           \<and> to_list w' this = Some (Inr (map snd ns))
           \<and> to_list w' other = Some (Inr (map snd ns))
           \<and> operator_eq (=) w' this other = Some (Inr True)"
proof -
  let ?w0 = "init_members this w"
  have ok0: "heap_ok ?w0" using ok by (simp add: heap_ok_init_members)
  have src0: "list_at ?w0 other ns"
    using src ne by (auto simp: list_at_def init_members_def split: option.splits)
  from list_at_begin [OF src0] obtain b where
    b: "begin_it ?w0 other = Inr b" "chain (heap ?w0) b ns" by blast
  have collect: "push_iter_range ?w0 b nullptr [] = Some (Inr (rev (map snd ns)))"
    using push_iter_range_chain [OF b(2), of "[]"] by simp
  from MakeList_drain_list_at [OF ok0 list_at_init_members, of "rev (map snd ns)"]
  obtain w1 ms where w1: "MakeList_drain this (rev (map snd ns)) ?w0 = Inr w1"
    "list_at w1 this ms" "map snd ms = map snd ns"
    "\<forall>a \<in> fst ` set ms. brk ?w0 \<le> a"
    "\<forall>a. a < brk ?w0 \<longrightarrow> heap w1 a = heap ?w0 a"
    "\<forall>l. l \<noteq> this \<longrightarrow> lists w1 l = lists ?w0 l"
    by auto
  have below: "\<And>a. a \<in> fst ` set ns \<Longrightarrow> a < brk ?w0"
    using list_at_below_brk [OF ok0 src0] .
  have src1: "list_at w1 other ns"
    using src0 w1(5,6) ne below by (intro list_at_frame [of ?w0 other ns w1]) auto
  have sz1: "get_size w1 other = Inr n"
    using sz w1(6) ne by (simp add: GetSize_def get_size_def init_members_def)
  from set_size_alive [OF w1(2), of n] obtain w' where
    w': "set_size this n w1 = Inr w'" "get_size w' this = Inr n" "heap w' = heap w1"
      "\<forall>l. l \<noteq> this \<longrightarrow> lists w' l = lists w1 l"
    by blast
  have dst: "list_at w' this ms" using list_at_set_size [OF w'(1)] w1(2) by simp
  have src': "list_at w' other ns" using list_at_set_size [OF w'(1)] src1 by simp
  have "SingleLinkedList_copy this other w = Some (Inr w')"
    using b(1) collect w1(1) sz1 w'(1)
    by (simp add: SingleLinkedList_copy_def MakeList_iter_def end_it_def)
  moreover have "fst ` set ms \<inter> fst ` set ns = {}"
    using w1(4) below by fastforce
  moreover have "get_size w' other = Inr n"
    using sz1 w'(4) ne by (simp add: get_size_def)
  moreover have "to_list w' this = Some (Inr (map snd ns))"
    using to_list_list_at [OF dst] w1(3) by simp
  moreover have "to_list w' other = Some (Inr (map snd ns))"
    using to_list_list_at [OF src'] by simp
  moreover have "operator_eq (=) w' this other = Some (Inr True)"
    using operator_eq_list_at [OF dst src', of "(=)"] w1(3) by (simp add: list.rel_eq)
  ultimately show ?thesis using dst src' w1(3) w'(2) by (auto simp: GetSize_def)
qed

theorem copy_ctor_witness:
  "heap_ok sample_world \<and> list_at sample_world 1 [(4, 1), (3, 2), (2, 3)] \<and> (2 :: nat) \<noteq> 1
   \<and> GetSize sample_world 1 = Inr 3
   \<and> (\<exists>w' ms. SingleLinkedList_copy 2 1 sample_world = Some (Inr w')
         \<and> list_at w' 2 ms \<and> map snd ms = [1, 2, 3]
         \<and> GetSize w' 2 = Inr 3 \<and> to_list w' 2 = Some (Inr [1, 2, 3])
         \<and> operator_eq (=) w' 2 1 = Some (Inr True))"
proof -
  have g: "GetSize sample_world 1 = Inr 3"
    by (simp add: GetSize_def get_size_def sample_world_def)
  have n: "(2 :: nat) \<noteq> 1" by simp
  from copy_ctor [OF heap_ok_sample list_at_sample_1 n g] heap_ok_sample list_at_sample_1 g
  show ?thesis by fastforce
qed

subsection \<open>Erasing\<close>

lemma chain_erase:
  assumes "chain h p (ns1 @ (a, x) # (b, y) # ns2)"
  shows "\<exists>na nb. h a = Some na \<and> next_node na = Heap b \<and> h b = Some nb \<and> a \<noteq> b
       \<and> chain (h(a \<mapsto> na\<lparr>next_node := next_node nb\<rparr>, b := None)) p (ns1 @ (a, x) # ns2)
       \<and> chain h (next_node nb) ns2"
proof -
  have d: "distinct (map fst (ns1 @ (a, x) # (b, y) # ns2))"
    using chain_distinct [OF assms] .
  show ?thesis using assms d
  proof (induction ns1 arbitrary: p)
    case Nil
    then obtain na nb where n: "h a = Some na" "node_value na = x" "next_node na = Heap b"
      "h b = Some nb" "chain h (next_node nb) ns2"
      by (auto split: option.splits)
    have ab: "a \<noteq> b" "a \<notin> fst ` set ns2" "b \<notin> fst ` set ns2" using Nil.prems(2) by auto
    let ?h = "h(a \<mapsto> na\<lparr>next_node := next_node nb\<rparr>, b := None)"
    have "chain ?h (next_node nb) ns2"
      using chain_upd_other [OF chain_upd_other [OF n(5) ab(2)]] ab(3) by simp
    then have "chain ?h p ([] @ (a, x) # ns2)" using Nil.prems(1) n ab by simp
    with n ab show ?case by blast
  next
    case (Cons c ns1)
    obtain k z where c: "c = (k, z)" by (cases c)
    from Cons.prems(1) c obtain nc where nc: "p = Heap k" "h k = Some nc" "node_value nc = z"
      "chain h (next_node nc) (ns1 @ (a, x) # (b, y) # ns2)"
      by (auto split: option.splits)
    from Cons.prems(2) c have k: "k \<noteq> a" "k \<noteq> b" 
      and d': "distinct (map fst (ns1 @ (a, x) # (b, y) # ns2))" by auto
    from Cons.IH [OF nc(4) d'] obtain na nb where
      n: "h a = Some na" "next_node na = Heap b" "h b = Some nb" "a \<noteq> b"
        "chain (h(a \<mapsto> na\<lparr>next_node := next_node nb\<rparr>, b := None)) (next_node nc)
           (ns1 @ (a, x) # ns2)"
        "chain h (next_node nb) ns2"
      by blast
    have "chain (h(a \<mapsto> na\<lparr>next_node := next_node nb\<rparr>, b := None)) p
        ((c # ns1) @ (a, x) # ns2)"
      using nc(1,2,3) n(5) k c by simp
    with n show ?case by blast
  qed
qed

lemma chain_start:
  "chain h p ns \<Longrightarrow> p = (if ns = [] then nullptr else Heap (fst (hd ns)))"
  by (cases ns) auto

lemma EraseAfter_sentinel_eq:
  assumes "lists w this = Some s" and "head_next_node s = Heap b" and "heap w b = Some nb"
  shows "EraseAfter this (Head this) w =
     Inr (next_node nb,
          w\<lparr>heap := (heap w)(b := None),
            lists := (lists w)(this \<mapsto>
              s\<lparr>head_next_node := next_node nb, list_size := list_size s - 1\<rparr>)\<rparr>)"
  using assms
  by (simp add: EraseAfter_def get_next_def set_next_def delete_Node_def decr_size_def
      get_size_def set_size_def)

lemma EraseAfter_node_eq:
  assumes "lists w this = Some s" and "heap w a = Some na" and "next_node na = Heap b"
    and "heap w b = Some nb" and "a \<noteq> b"
  shows "EraseAfter this (Heap a) w =
     Inr (next_node nb,
          w\<lparr>heap := (heap w)(a \<mapsto> na\<lparr>next_node := next_node nb\<rparr>, b := None),
            lists := (lists w)(this \<mapsto> s\<lparr>list_size := list_size s - 1\<rparr>)\<rparr>)"
  using assms
  by (simp add: EraseAfter_def get_next_def set_next_def delete_Node_def decr_size_def
      get_size_def set_size_def)

text \<open>
  C4. Let \<open>pos\<close> be the \<open>i\<close>-th valid position of a well-formed list (position 0 is
  the one before the first element) and let a node follow it. Then \<^verbatim>\<open>EraseAfter(pos)\<close>
  succeeds: it frees exactly the node after \<open>pos\<close>, links \<open>pos\<close> to that node's former
  successor, lowers the stored size by one and returns the new successor of \<open>pos\<close>
  (the end position when \<open>pos\<close> is now last); the other nodes keep their addresses, their
  values and their order.
\<close>

theorem EraseAfter_correct:
  assumes l: "list_at w this ns" and i: "i < length ns"
    and pos: "pos = positions this ns ! i" and sz: "GetSize w this = Inr n"
  shows "\<exists>r w'. EraseAfter this pos w = Inr (r, w')
           \<and> list_at w' this (take i ns @ drop (Suc i) ns)
           \<and> to_list w' this = Some (Inr (map snd (take i ns @ drop (Suc i) ns)))
           \<and> dom (heap w') = dom (heap w) - {fst (ns ! i)}
           \<and> get_next w' pos = get_next w (Heap (fst (ns ! i)))
           \<and> get_next w' pos = Inr r
           \<and> r = (if Suc i < length ns then Heap (fst (ns ! Suc i)) else end_it)
           \<and> GetSize w' this = Inr (n - 1)"
proof -
  from l obtain s where s: "lists w this = Some s" "chain (heap w) (head_next_node s) ns"
    by (auto simp: list_at_def split: option.splits)
  have n: "list_size s = n" using sz s(1) by (simp add: GetSize_def get_size_def)
  have nxt: "(if Suc i < length ns then Heap (fst (ns ! Suc i)) else end_it)
      = (if drop (Suc i) ns = [] then nullptr else Heap (fst (hd (drop (Suc i) ns))))"
    by (simp add: end_it_def hd_drop_conv_nth)
  show ?thesis
  proof (cases i)
    case 0
    with i obtain b y ns2 where ns: "ns = (b, y) # ns2" by (cases ns) auto
    from s(2) ns obtain nb where nb: "head_next_node s = Heap b" "heap w b = Some nb"
      "chain (heap w) (next_node nb) ns2"
      by (auto split: option.splits)
    have b: "b \<notin> fst ` set ns2"
      using chain_head_notin_tail [of "heap w" b y ns2] s(2) ns nb(1) by simp
    let ?w = "w\<lparr>heap := (heap w)(b := None),
            lists := (lists w)(this \<mapsto>
              s\<lparr>head_next_node := next_node nb, list_size := list_size s - 1\<rparr>)\<rparr>"
    have e: "EraseAfter this pos w = Inr (next_node nb, ?w)"
      using EraseAfter_sentinel_eq [OF s(1) nb(1,2)] pos 0
      by (simp add: positions_def before_begin_def)
    have l': "list_at ?w this ns2"
      using chain_upd_other [OF nb(3) b] by (simp add: list_at_def)
    have "dom (heap ?w) = dom (heap w) - {fst (ns ! i)}" using 0 ns by auto
    moreover have "get_next ?w pos = get_next w (Heap (fst (ns ! i)))"
      using pos 0 ns nb(2) by (simp add: positions_def before_begin_def get_next_def)
    moreover have "get_next ?w pos = Inr (next_node nb)"
      using pos 0 by (simp add: positions_def before_begin_def get_next_def)
    moreover have "next_node nb = (if Suc i < length ns then Heap (fst (ns ! Suc i)) else end_it)"
      unfolding nxt using chain_start [OF nb(3)] 0 ns by simp
    moreover have "GetSize ?w this = Inr (n - 1)"
      using n by (simp add: GetSize_def get_size_def)
    ultimately show ?thesis
      using e l' to_list_list_at [OF l'] 0 ns by simp
  next
    case (Suc j)
    let ?ns1 = "take j ns" and ?ns2 = "drop (Suc i) ns"
    obtain a x where a: "ns ! j = (a, x)" by (cases "ns ! j")
    obtain b y where b: "ns ! i = (b, y)" by (cases "ns ! i")
    have ns: "ns = ?ns1 @ (a, x) # (b, y) # ?ns2"
      using i Suc a b by (metis Cons_nth_drop_Suc Suc_lessD id_take_nth_drop)
    from chain_erase [of "heap w" "head_next_node s" ?ns1 a x b y ?ns2] s(2) ns
    obtain na nb where nn: "heap w a = Some na" "next_node na = Heap b" "heap w b = Some nb"
      "a \<noteq> b"
      "chain ((heap w)(a \<mapsto> na\<lparr>next_node := next_node nb\<rparr>, b := None)) (head_next_node s)
         (?ns1 @ (a, x) # ?ns2)"
      "chain (heap w) (next_node nb) ?ns2"
      by auto
    have res: "take i ns @ drop (Suc i) ns = ?ns1 @ (a, x) # ?ns2"
      using i Suc a by (simp add: take_Suc_conv_app_nth)
    have p: "pos = Heap a" using pos Suc a i by (simp add: positions_def)
    let ?w = "w\<lparr>heap := (heap w)(a \<mapsto> na\<lparr>next_node := next_node nb\<rparr>, b := None),
            lists := (lists w)(this \<mapsto> s\<lparr>list_size := list_size s - 1\<rparr>)\<rparr>"
    have e: "EraseAfter this pos w = Inr (next_node nb, ?w)"
      using EraseAfter_node_eq [OF s(1) nn(1,2,3,4)] p by simp
    have l': "list_at ?w this (take i ns @ drop (Suc i) ns)"
      unfolding res using nn(5) by (simp add: list_at_def)
    have "dom (heap ?w) = dom (heap w) - {fst (ns ! i)}" using b nn(1,4) by auto
    moreover have "get_next ?w pos = get_next w (Heap (fst (ns ! i)))"
      using p b nn(3,4) by (simp add: get_next_def)
    moreover have "get_next ?w pos = Inr (next_node nb)"
      using p nn(4) by (simp add: get_next_def)
    moreover have "next_node nb = (if Suc i < length ns then Heap (fst (ns ! Suc i)) else end_it)"
      unfolding nxt using chain_start [OF nn(6)] by simp
    moreover have "GetSize ?w this = Inr (n - 1)"
      using n by (simp add: GetSize_def get_size_def)
    ultimately show ?thesis
      using e l' to_list_list_at [OF l'] by simp
  qed
qed

theorem EraseAfter_correct_witness:
  "list_at sample_world 1 [(4, 1), (3, 2), (2, 3)]
   \<and> (1 :: nat) < length [(4 :: nat, 1 :: int), (3, 2), (2, 3)]
   \<and> Heap 4 = positions 1 [(4 :: nat, 1 :: int), (3, 2), (2, 3)] ! 1
   \<and> GetSize sample_world 1 = Inr 3
   \<and> (\<exists>r w'. EraseAfter 1 (Heap 4) sample_world = Inr (r, w')
         \<and> list_at w' 1 [(4, 1), (2, 3)] \<and> to_list w' 1 = Some (Inr [1, 3])
         \<and> r = Heap 2 \<and> GetSize w' 1 = Inr 2)"
proof -
  have i: "(1 :: nat) < length [(4 :: nat, 1 :: int), (3, 2), (2, 3)]" by simp
  have p: "Heap 4 = positions 1 [(4 :: nat, 1 :: int), (3, 2), (2, 3)] ! 1"
    by (simp add: positions_def)
  have g: "GetSize sample_world 1 = Inr 3"
    by (simp add: GetSize_def get_size_def sample_world_def)
  from EraseAfter_correct [OF list_at_sample_1 i p g] obtain r w' where
    "EraseAfter 1 (Heap 4) sample_world = Inr (r, w')"
    "list_at w' 1 [(4, 1), (2, 3)]" "to_list w' 1 = Some (Inr [1, 3])"
    "r = Heap 2" "GetSize w' 1 = Inr 2"
    by auto
  with list_at_sample_1 i p g show ?thesis by blast
qed

text \<open>
  C5. On a list that is not empty, \<^verbatim>\<open>EraseAfter(before_begin())\<close> and
  \<^verbatim>\<open>PopFront()\<close> have the same outcome: the same resulting world, or the same fault.
  When the list is well-formed with a first node, both remove that node and leave the rest
  in order with the stored size lowered by one.
\<close>

theorem EraseAfter_before_begin_is_PopFront:
  assumes "IsEmpty w this = Inr False"
  shows "map_sum id snd (EraseAfter this (before_begin this) w) = PopFront this w
       \<and> (\<forall>a x ns n. list_at w this ((a, x) # ns) \<and> GetSize w this = Inr n \<longrightarrow>
            (\<exists>w'. PopFront this w = Inr w' \<and> list_at w' this ns
               \<and> to_list w' this = Some (Inr (map snd ns)) \<and> GetSize w' this = Inr (n - 1)))"
proof -
  from assms obtain s where s: "lists w this = Some s" "list_size s \<noteq> 0"
    by (auto simp: IsEmpty_def get_size_def split: option.splits)
  have pos: "0 < list_size s" using s(2) by (simp add: word_greater_zero_iff)
  have same: "map_sum id snd (EraseAfter this (before_begin this) w) = PopFront this w"
    using s(1) pos
    by (auto simp: EraseAfter_def PopFront_def before_begin_def get_next_def set_next_def
        delete_Node_def decr_size_def get_size_def set_size_def
        split: ptr.splits option.splits)
  have "\<exists>w'. PopFront this w = Inr w' \<and> list_at w' this ns
      \<and> to_list w' this = Some (Inr (map snd ns)) \<and> GetSize w' this = Inr (n - 1)"
    if l: "list_at w this ((a, x) # ns)" and n: "GetSize w this = Inr n" for a x ns n
  proof -
    from l s(1) obtain na where na: "head_next_node s = Heap a" "heap w a = Some na"
      "chain (heap w) (next_node na) ns"
      by (auto simp: list_at_def split: option.splits)
    have a: "a \<notin> fst ` set ns"
      using chain_head_notin_tail [of "heap w" a x ns] l s(1) na(1)
      by (simp add: list_at_def)
    let ?w = "w\<lparr>heap := (heap w)(a := None),
            lists := (lists w)(this \<mapsto>
              s\<lparr>head_next_node := next_node na, list_size := list_size s - 1\<rparr>)\<rparr>"
    have "PopFront this w = Inr ?w"
      using same EraseAfter_sentinel_eq [OF s(1) na(1,2)] by (simp add: before_begin_def)
    moreover have l': "list_at ?w this ns"
      using chain_upd_other [OF na(3) a] by (simp add: list_at_def)
    moreover have "GetSize ?w this = Inr (n - 1)"
      using n s(1) by (simp add: GetSize_def get_size_def)
    ultimately show ?thesis using to_list_list_at [OF l'] by simp
  qed
  with same show ?thesis by blast
qed

theorem EraseAfter_before_begin_is_PopFront_witness:
  "IsEmpty sample_world 0 = Inr False
   \<and> map_sum id snd (EraseAfter 0 (before_begin 0) sample_world) = PopFront 0 sample_world
   \<and> (\<exists>w'. PopFront 0 sample_world = Inr w' \<and> list_at w' 0 [(0, 2)]
         \<and> to_list w' 0 = Some (Inr [2]) \<and> GetSize w' 0 = Inr 1)"
proof -
  have e: "IsEmpty sample_world 0 = Inr False"
    by (simp add: IsEmpty_def get_size_def sample_world_def)
  have g: "GetSize sample_world 0 = Inr 2"
    by (simp add: GetSize_def get_size_def sample_world_def)
  from EraseAfter_before_begin_is_PopFront [OF e] list_at_sample_0 g e
  show ?thesis by fastforce
qed

subsection \<open>Clearing\<close>

text \<open>
  On a well-formed list the loop of \<^verbatim>\<open>Clear\<close> ends: it frees exactly the nodes of
  the list and leaves the list empty with stored size 0.
\<close>

lemma Clear_loop_list_at:
  assumes "list_at w this ns"
  shows "\<exists>w'. Clear_loop this w = Some (Inr w') \<and> list_at w' this []
           \<and> (\<forall>a. heap w' a = (if a \<in> fst ` set ns then None else heap w a))
           \<and> (\<forall>l. l \<noteq> this \<longrightarrow> lists w' l = lists w l)
           \<and> brk w' = brk w"
  using assms
proof (induction ns arbitrary: w)
  case Nil
  then have "Clear_loop this w = Some (Inr w)"
    by (subst Clear_loop.simps) (auto simp: list_at_def get_next_def split: option.splits)
  with Nil show ?case by simp
next
  case (Cons c ns)
  obtain a x where c: "c = (a, x)" by (cases c)
  from Cons.prems c obtain s na where s: "lists w this = Some s" "head_next_node s = Heap a"
    "heap w a = Some na" "chain (heap w) (next_node na) ns"
    by (auto simp: list_at_def split: option.splits)
  have a: "a \<notin> fst ` set ns"
    using chain_head_notin_tail [of "heap w" a x ns] Cons.prems c s(1,2)
    by (simp add: list_at_def)
  let ?w = "w\<lparr>heap := (heap w)(a := None),
            lists := (lists w)(this \<mapsto> s\<lparr>head_next_node := next_node na\<rparr>)\<rparr>"
  have step: "Clear_loop this w = Clear_loop this ?w"
    using s(1,2,3)
    by (subst Clear_loop.simps) (simp add: get_next_def delete_Node_def set_next_def)
  have "list_at ?w this ns"
    using chain_upd_other [OF s(4) a] by (simp add: list_at_def)
  from Cons.IH [OF this] obtain w' where
    w': "Clear_loop this ?w = Some (Inr w')" "list_at w' this []"
      "\<forall>b. heap w' b = (if b \<in> fst ` set ns then None else heap ?w b)"
      "\<forall>l. l \<noteq> this \<longrightarrow> lists w' l = lists ?w l" "brk w' = brk ?w"
    by blast
  have "\<forall>b. heap w' b = (if b \<in> fst ` set (c # ns) then None else heap w b)"
    using w'(3) c by auto
  moreover have "\<forall>l. l \<noteq> this \<longrightarrow> lists w' l = lists w l" using w'(4) by simp
  ultimately show ?case using step w'(1,2,5) by simp
qed

lemma Clear_list_at:
  assumes "list_at w this ns"
  shows "\<exists>w'. Clear this w = Some (Inr w') \<and> list_at w' this []
           \<and> to_list w' this = Some (Inr []) \<and> GetSize w' this = Inr 0
           \<and> IsEmpty w' this = Inr True
           \<and> (\<forall>a. heap w' a = (if a \<in> fst ` set ns then None else heap w a))"
proof -
  from Clear_loop_list_at [OF assms] obtain w1 where
    w1: "Clear_loop this w = Some (Inr w1)" "list_at w1 this []"
      "\<forall>a. heap w1 a = (if a \<in> fst ` set ns then None else heap w a)"
    by blast
  from set_size_alive [OF w1(2), of 0] obtain w' where
    w': "set_size this 0 w1 = Inr w'" "get_size w' this = Inr 0" "heap w' = heap w1"
    by blast
  have l: "list_at w' this []" using list_at_set_size [OF w'(1)] w1(2) by simp
  have "Clear this w = Some (Inr w')" using w1(1) w'(1) by (simp add: Clear_def)
  with l to_list_list_at [OF l] w'(2,3) w1(3) show ?thesis
    by (simp add: GetSize_def IsEmpty_def)
qed

subsection \<open>Assignment\<close>

text \<open>
  C8. Self-assignment \<^verbatim>\<open>lst = lst\<close> returns with the world as it was: the size and
  the contents of the list, and everything else, are untouched.
\<close>

theorem self_assignment_is_noop: "assign lst lst w = Some (Inr w)"
  by (simp add: assign_def)

subsection \<open>Inserting\<close>

text \<open>
  At the position of a real node \<^verbatim>\<open>InsertAfter\<close> links one new node behind it and
  counts it once.
\<close>

lemma chain_insert:
  assumes "chain h p (ns1 @ (a, x) # ns2)" and "h k = None"
  shows "\<exists>na. h a = Some na \<and> k \<noteq> a
       \<and> chain (h(k \<mapsto> \<lparr>node_value = v, next_node = next_node na\<rparr>,
                   a \<mapsto> na\<lparr>next_node := Heap k\<rparr>)) p (ns1 @ (a, x) # (k, v) # ns2)"
proof -
  have d: "distinct (map fst (ns1 @ (a, x) # ns2))"
    using chain_distinct [OF assms(1)] .
  have k: "k \<notin> fst ` set (ns1 @ (a, x) # ns2)"
    using chain_allocated [OF assms(1)] assms(2) by fastforce
  show ?thesis using assms(1) d k
  proof (induction ns1 arbitrary: p)
    case Nil
    then obtain na where n: "p = Heap a" "h a = Some na" "node_value na = x"
      "chain h (next_node na) ns2"
      by (auto split: option.splits)
    have ak: "k \<noteq> a" "a \<notin> fst ` set ns2" "k \<notin> fst ` set ns2" using Nil.prems(2,3) by auto
    let ?h = "h(k \<mapsto> \<lparr>node_value = v, next_node = next_node na\<rparr>,
                a \<mapsto> na\<lparr>next_node := Heap k\<rparr>)"
    have "chain ?h (next_node na) ns2"
      using chain_upd_other [OF chain_upd_other [OF n(4) ak(3)] ak(2)] by simp
    then have "chain ?h p ([] @ (a, x) # (k, v) # ns2)" using n ak by simp
    with n ak show ?case by blast
  next
    case (Cons c ns1)
    obtain b z where c: "c = (b, z)" by (cases c)
    from Cons.prems(1) c obtain nc where nc: "p = Heap b" "h b = Some nc" "node_value nc = z"
      "chain h (next_node nc) (ns1 @ (a, x) # ns2)"
      by (auto split: option.splits)
    from Cons.prems(2,3) c have b: "b \<noteq> a" "b \<noteq> k"
      and d': "distinct (map fst (ns1 @ (a, x) # ns2))"
      and k': "k \<notin> fst ` set (ns1 @ (a, x) # ns2)" by auto
    from Cons.IH [OF nc(4) d' k'] obtain na where
      n: "h a = Some na" "k \<noteq> a"
        "chain (h(k \<mapsto> \<lparr>node_value = v, next_node = next_node na\<rparr>,
                   a \<mapsto> na\<lparr>next_node := Heap k\<rparr>)) (next_node nc)
           (ns1 @ (a, x) # (k, v) # ns2)"
      by blast
    have "chain (h(k \<mapsto> \<lparr>node_value = v, next_node = next_node na\<rparr>,
                   a \<mapsto> na\<lparr>next_node := Heap k\<rparr>)) p
        ((c # ns1) @ (a, x) # (k, v) # ns2)"
      using nc(1,2,3) n(3) b c by simp
    with n show ?case by blast
  qed
qed

lemma InsertAfter_node_list_at:
  assumes ok: "heap_ok w" and l: "list_at w this ns" and i: "i < length ns"
    and pos: "pos = Heap (fst (ns ! i))" and sz: "GetSize w this = Inr n"
  shows "\<exists>w'. InsertAfter this pos v w = Inr (Heap (brk w), w') \<and> heap_ok w'
           \<and> list_at w' this (take (Suc i) ns @ (brk w, v) # drop (Suc i) ns)
           \<and> get_next w' pos = Inr (Heap (brk w))
           \<and> get_next w' (Heap (brk w)) = get_next w pos
           \<and> GetSize w' this = Inr (n + 1)"
proof -
  from l obtain s where s: "lists w this = Some s" "chain (heap w) (head_next_node s) ns"
    by (auto simp: list_at_def split: option.splits)
  have n: "list_size s = n" using sz s(1) by (simp add: GetSize_def get_size_def)
  obtain a x where a: "ns ! i = (a, x)" by (cases "ns ! i")
  have ns: "ns = take i ns @ (a, x) # drop (Suc i) ns"
    using i a by (metis id_take_nth_drop)
  have fresh: "heap w (brk w) = None" using ok by (simp add: heap_ok_def)
  from chain_insert [of "heap w" "head_next_node s" "take i ns" a x "drop (Suc i) ns" "brk w" v]
    s(2) ns fresh
  obtain na where na: "heap w a = Some na" "brk w \<noteq> a"
    "chain ((heap w)(brk w \<mapsto> \<lparr>node_value = v, next_node = next_node na\<rparr>,
                   a \<mapsto> na\<lparr>next_node := Heap (brk w)\<rparr>)) (head_next_node s)
       (take i ns @ (a, x) # (brk w, v) # drop (Suc i) ns)"
    by auto
  have res: "take (Suc i) ns @ (brk w, v) # drop (Suc i) ns
      = take i ns @ (a, x) # (brk w, v) # drop (Suc i) ns"
    using i a by (simp add: take_Suc_conv_app_nth)
  let ?w = "w\<lparr>heap := (heap w)(brk w \<mapsto> \<lparr>node_value = v, next_node = next_node na\<rparr>,
                   a \<mapsto> na\<lparr>next_node := Heap (brk w)\<rparr>),
            brk := Suc (brk w),
            lists := (lists w)(this \<mapsto> s\<lparr>list_size := list_size s + 1\<rparr>)\<rparr>"
  have p: "pos = Heap a" using pos a by simp
  have "InsertAfter this pos v w = Inr (Heap (brk w), ?w)"
    using s(1) na(1,2) p
    by (simp add: InsertAfter_def cbefore_begin_def get_next_def new_Node_def set_next_def
        incr_size_def get_size_def set_size_def)
  moreover have "heap_ok ?w" using ok na(1) by (auto simp: heap_ok_def)
  moreover have "list_at ?w this (take (Suc i) ns @ (brk w, v) # drop (Suc i) ns)"
    unfolding res using na(3) by (simp add: list_at_def)
  moreover have "get_next ?w pos = Inr (Heap (brk w))" using p by (simp add: get_next_def)
  moreover have "get_next ?w (Heap (brk w)) = get_next w pos"
    using p na(1,2) by (simp add: get_next_def)
  moreover have "GetSize ?w this = Inr (n + 1)" using n by (simp add: GetSize_def get_size_def)
  ultimately show ?thesis by blast
qed

text \<open>
  The list \<open>[1, 2, 3]\<close>: inserting 99 after the first element gives \<open>[1, 99, 2, 3]\<close>
  with size 4, and erasing after the first element then gives \<open>[1, 2, 3]\<close> with size 3.
\<close>

lemma insert_then_erase_scenario:
  "begin_it sample_world 1 = Inr (Heap 4)
   \<and> (case InsertAfter 1 (Heap 4) 99 sample_world of
         Inl e \<Rightarrow> False
       | Inr (it, w1) \<Rightarrow>
           list_at w1 1 [(4, 1), (5, 99), (3, 2), (2, 3)] \<and> GetSize w1 1 = Inr 4
           \<and> (case EraseAfter 1 (Heap 4) w1 of
                 Inl e \<Rightarrow> False
               | Inr (it2, w2) \<Rightarrow>
                   list_at w2 1 [(4, 1), (3, 2), (2, 3)] \<and> GetSize w2 1 = Inr 3))"
  by (simp add: op_defs EraseAfter_def delete_Node_def decr_size_def list_at_def GetSize_def
      sample_world_def)

text \<open>
  The branch of \<^verbatim>\<open>InsertAfter\<close> for the position before the first element calls
  \<^verbatim>\<open>PushFront\<close>, which counts the new node, and then counts it again: on every
  well-formed list the node is inserted in front and the stored size grows by two.
\<close>

lemma InsertAfter_before_begin_list_at:
  assumes ok: "heap_ok w" and l: "list_at w this ns" and sz: "GetSize w this = Inr n"
  shows "\<exists>w'. InsertAfter this (before_begin this) v w = Inr (Heap (brk w), w')
           \<and> heap_ok w' \<and> list_at w' this ((brk w, v) # ns) \<and> GetSize w' this = Inr (n + 2)"
proof -
  from l obtain s where s: "lists w this = Some s" "chain (heap w) (head_next_node s) ns"
    by (auto simp: list_at_def split: option.splits)
  have n: "list_size s = n" using sz s(1) by (simp add: GetSize_def get_size_def)
  have fresh: "brk w \<notin> fst ` set ns"
    using chain_below_brk [OF ok s(2)] by blast
  let ?w = "w\<lparr>heap := (heap w)(brk w \<mapsto> \<lparr>node_value = v, next_node = head_next_node s\<rparr>),
            brk := Suc (brk w),
            lists := (lists w)(this \<mapsto>
              s\<lparr>head_next_node := Heap (brk w), list_size := list_size s + 1 + 1\<rparr>)\<rparr>"
  have "InsertAfter this (before_begin this) v w = Inr (Heap (brk w), ?w)"
    using s(1)
    by (simp add: InsertAfter_def PushFront_eq before_begin_def cbefore_begin_def
        incr_size_def get_size_def set_size_def begin_it_def get_next_def)
  moreover have "heap_ok ?w" using ok by (simp add: heap_ok_def)
  moreover have "list_at ?w this ((brk w, v) # ns)"
    using chain_upd_other [OF s(2) fresh] by (simp add: list_at_def)
  moreover have "GetSize ?w this = Inr (n + 2)"
    using n by (simp add: GetSize_def get_size_def)
  ultimately show ?thesis by blast
qed

text \<open>
  C1. \<^verbatim>\<open>InsertAfter(before_begin(), v)\<close> evaluated against \<^verbatim>\<open>PushFront(v)\<close> on
  the empty list: the two leave the same iteration order \<open>[7]\<close>, but the stored size is
  2 after the first and 1 after the second.
\<close>

theorem InsertAfter_before_begin_is_not_PushFront:
  "InsertAfter 0 (before_begin 0) 7 one_list_world = Inr (Heap 0, one_node_world 2)
   \<and> PushFront 0 7 one_list_world = Inr (one_node_world 1)
   \<and> to_list (one_node_world 2) 0 = Some (Inr [7])
   \<and> to_list (one_node_world 1) 0 = Some (Inr [7])
   \<and> GetSize (one_node_world 2) 0 = Inr 2
   \<and> GetSize (one_node_world 1) 0 = Inr 1"
proof -
  have "InsertAfter 0 (before_begin 0) 7 one_list_world = Inr (Heap 0, one_node_world 2)"
    by (simp add: op_defs one_list_world_def one_node_world_def empty_world_def
        SingleLinkedList_default_def init_members_def)
  moreover have "PushFront 0 7 one_list_world = Inr (one_node_world 1)"
    by (simp add: op_defs one_list_world_def one_node_world_def empty_world_def
        SingleLinkedList_default_def init_members_def)
  moreover have "list_at (one_node_world n) 0 [(0, 7)]" for n
    by (simp add: list_at_def one_node_world_def)
  from to_list_list_at [OF this] have "to_list (one_node_world n) 0 = Some (Inr [7])" for n
    by simp
  moreover have "GetSize (one_node_world n) 0 = Inr n" for n
    by (simp add: GetSize_def get_size_def one_node_world_def)
  ultimately show ?thesis by simp
qed

text \<open>
  C2. The size invariant evaluated across \<^verbatim>\<open>InsertAfter(before_begin(), 9)\<close> on the
  list \<open>[1, 2]\<close>: before the call the list has two nodes and stored size 2; after it, it
  has three nodes and stored size 4.
\<close>

theorem InsertAfter_before_begin_breaks_size:
  "list_at sample_world 0 [(1, 1), (0, 2)] \<and> GetSize sample_world 0 = Inr 2
   \<and> (case InsertAfter 0 (before_begin 0) 9 sample_world of
         Inl e \<Rightarrow> False
       | Inr (it, w') \<Rightarrow> list_at w' 0 [(5, 9), (1, 1), (0, 2)] \<and> GetSize w' 0 = Inr 4)"
  by (simp add: op_defs list_at_def GetSize_def sample_world_def)

text \<open>
  C3. \<^verbatim>\<open>InsertAfter(pos, 9)\<close> evaluated at the position before the first element of
  the list \<open>[1, 2, 3]\<close>: one node holding 9 is inserted, its successor is the former
  successor of \<open>pos\<close>, \<open>pos\<close> links to it and it is the position returned, but the stored
  size goes from 3 to 5.
\<close>

theorem InsertAfter_before_begin_adds_two:
  "get_next sample_world (before_begin 1) = Inr (Heap 4) \<and> GetSize sample_world 1 = Inr 3
   \<and> (case InsertAfter 1 (before_begin 1) 9 sample_world of
         Inl e \<Rightarrow> False
       | Inr (it, w') \<Rightarrow>
           it = Heap 5 \<and> get_next w' (before_begin 1) = Inr (Heap 5)
           \<and> heap w' 5 = Some \<lparr>node_value = 9, next_node = Heap 4\<rparr>
           \<and> to_list w' 1 = Some (Inr [9, 1, 2, 3])
           \<and> GetSize w' 1 = Inr 5)"
proof -
  let ?w = "sample_world
     \<lparr>heap := (heap sample_world)(5 \<mapsto> \<lparr>node_value = 9, next_node = Heap 4\<rparr>),
      brk := 6,
      lists := (lists sample_world)(1 \<mapsto> \<lparr>head_next_node = Heap 5, list_size = 5\<rparr>)\<rparr>"
  have i: "InsertAfter 1 (before_begin 1) 9 sample_world = Inr (Heap 5, ?w)"
    by (simp add: op_defs sample_world_def)
  have "list_at ?w 1 [(5, 9), (4, 1), (3, 2), (2, 3)]"
    by (simp add: list_at_def sample_world_def)
  from to_list_list_at [OF this] have "to_list ?w 1 = Some (Inr [9, 1, 2, 3])" by simp
  then show ?thesis
    unfolding i by (simp add: get_next_def before_begin_def GetSize_def get_size_def sample_world_def)
qed

subsection \<open>Iterators\<close>

text \<open>
  C10. Incrementing an iterator equal to \<^verbatim>\<open>end()\<close> leaves it equal to \<^verbatim>\<open>end()\<close>:
  the increment tests for the null node before it follows a link, so in every world, also
  one with freed nodes, no node is read and no fault is raised.
\<close>

theorem incr_end_is_noop: "iter_incr w end_it = Inr end_it"
  by (simp add: iter_incr_def end_it_def)

end
